theory Spec2Isabelle
  imports Complex_Main
begin

section \<open>imgs\_to\_video.py: image frames to clean and annotated video clips\<close>

text \<open>
  A shallow embedding of \<^verbatim>\<open>imgs_to_video.py\<close>. Everything the script reads from outside
  is a field of the record \<open>env\<close>: the annotation file, the two directory listings, which
  images \<^verbatim>\<open>cv2.imread\<close> decodes, which files can be opened for writing, and the two
  library functions whose code is not part of the script (\<^verbatim>\<open>natsorted\<close> and Python's
  \<^verbatim>\<open>int\<close> on text). Everything the script writes is returned: per chunk, the frames given to
  each video writer and the annotation file. Exceptions are values of \<open>exn\<close>.

  Text is ASCII: a \<open>string\<close> is a list of bytes, \<^verbatim>\<open>\d\<close> is one of 0..9 and
  \<^verbatim>\<open>lower()\<close> changes A..Z only.
\<close>

subsection \<open>Python values\<close>

datatype exn = ValueError | KeyError | TypeError | RuntimeError | ZeroDivisionError

text \<open>A value of a \<^verbatim>\<open>csv.DictReader\<close> row: text, or \<^verbatim>\<open>None\<close> where the line was short.\<close>

datatype cell = Str string | PyNone

type_synonym row = "string \<rightharpoonup> cell"

text \<open>The dictionary \<^verbatim>\<open>{'name': ..., 'x': ..., 'y': ...}\<close> stored per point.\<close>

record point =
  p_name :: cell
  p_x :: int
  p_y :: int

type_synonym points_map = "int \<rightharpoonup> point list"

text \<open>
  What is at \<^verbatim>\<open>csv_path\<close>: nothing, a file that \<^verbatim>\<open>open\<close> refuses, or a file whose lines
  the csv reader splits into fields (the first line is the header).
\<close>

datatype csv_source = NotFound | OpenFails | Readable "string list list"

text \<open>A decoded, resized frame: the image it came from and the circles drawn on it.\<close>

record frame =
  src :: string
  circles :: "(int \<times> int) list"

text \<open>One row of \<^verbatim>\<open>chunk_csv_data\<close>: the keys Frame, Object Name, X, Y.\<close>

record csv_row =
  row_Frame :: nat
  row_Object_Name :: cell
  row_X :: int
  row_Y :: int

text \<open>
  The per-chunk annotation file after the chunk: never opened, written with a header
  and rows, or the \<^verbatim>\<open>try\<close> block failed (\<^verbatim>\<open>Error saving CSV\<close>).
\<close>

datatype csv_file = NoFile | Written "string list" "csv_row list" | SaveError

record env =
  csv_at_path :: csv_source
  input_listing :: "string list"
  imread_ok :: "string \<Rightarrow> bool"
  output_listing :: "string list"
  csv_writable :: "string \<Rightarrow> bool"
  natsorted :: "string list \<Rightarrow> string list"
  int_of_str :: "string \<Rightarrow> int option"

text \<open>
  \<^item> \<open>input_listing\<close> is \<^verbatim>\<open>os.listdir(input_folder)\<close>; \<open>imread_ok name\<close> says that
    \<^verbatim>\<open>cv2.imread\<close> of that file of the input folder is not \<^verbatim>\<open>None\<close>.
  \<^item> \<open>output_listing\<close> is \<^verbatim>\<open>os.listdir\<close> of the directory of \<^verbatim>\<open>output_prefix\<close> (created
    when absent). File names stand for paths in that directory, so the prefix below is
    the base name of \<^verbatim>\<open>output_prefix\<close>.
  \<^item> \<open>int_of_str s\<close> is \<^verbatim>\<open>int(s)\<close> for text \<open>s\<close>: \<open>None\<close> when it raises ValueError.
  \<^item> \<^verbatim>\<open>fps\<close>, \<^verbatim>\<open>frame_size\<close> and the codec do not influence which frames and rows are
    written and are left out.
\<close>

subsection \<open>Characters and numbers\<close>

definition is_digit :: "char \<Rightarrow> bool" where
  "is_digit c = (48 \<le> (of_char c :: nat) \<and> (of_char c :: nat) \<le> 57)"

definition digit_val :: "char \<Rightarrow> nat" where
  "digit_val c = of_char c - 48"

definition digit_char :: "nat \<Rightarrow> char" where
  "digit_char d = char_of (48 + d)"

text \<open>\<^verbatim>\<open>int(s)\<close> on a run of digits (file names are far shorter than the digit limit).\<close>

definition digits_val :: "string \<Rightarrow> nat" where
  "digits_val ds = foldl (\<lambda>acc c. 10 * acc + digit_val c) 0 ds"

text \<open>The text an f-string gives a non-negative integer.\<close>

fun str_nat :: "nat \<Rightarrow> string" where
  "str_nat n = (if n < 10 then [digit_char n] else str_nat (n div 10) @ [digit_char (n mod 10)])"

declare str_nat.simps [simp del]

definition lower_char :: "char \<Rightarrow> char" where
  "lower_char c = (if 65 \<le> (of_char c :: nat) \<and> (of_char c :: nat) \<le> 90
                   then char_of ((of_char c :: nat) + 32) else c)"

definition lower :: "string \<Rightarrow> string" where
  "lower s = map lower_char s"

definition startswith :: "string \<Rightarrow> string \<Rightarrow> bool" where
  "startswith p s = (take (length p) s = p)"

definition endswith :: "string \<Rightarrow> string \<Rightarrow> bool" where
  "endswith p s = (length p \<le> length s \<and> drop (length s - length p) s = p)"

text \<open>\<^verbatim>\<open>sub in s\<close>.\<close>

fun contains :: "string \<Rightarrow> string \<Rightarrow> bool" where
  "contains sub [] = (sub = [])"
| "contains sub (c # cs) = (startswith sub (c # cs) \<or> contains sub cs)"

text \<open>\<^verbatim>\<open>max(xs, default=d)\<close>.\<close>

definition py_max_default :: "nat list \<Rightarrow> nat \<Rightarrow> nat" where
  "py_max_default xs d = (case xs of [] \<Rightarrow> d | v # vs \<Rightarrow> fold max vs v)"

text \<open>\<^verbatim>\<open>xs[a:b]\<close>, negative bounds counting from the end.\<close>

definition py_slice :: "'a list \<Rightarrow> int \<Rightarrow> int \<Rightarrow> 'a list" where
  "py_slice xs a b =
     (let n = int (length xs);
          lo = (if a < 0 then max (a + n) 0 else min a n);
          hi = (if b < 0 then max (b + n) 0 else min b n)
      in take (nat (hi - lo)) (drop (nat lo) xs))"

text \<open>
  \<^verbatim>\<open>math.ceil(a / b)\<close> for \<open>b \<noteq> 0\<close>. The script divides in floating point; for a list
  length \<open>a\<close> below \<open>2^53\<close> and a chunk size of at most that magnitude the rounded quotient
  has the same ceiling as the exact one, which is what this computes.
\<close>

definition py_ceil_div :: "int \<Rightarrow> int \<Rightarrow> int" where
  "py_ceil_div a b = - ((- a) div b)"

subsection \<open>\<^verbatim>\<open>load_csv_data\<close>\<close>

text \<open>
  \<^verbatim>\<open>csv.DictReader\<close>: the first line gives the field names; a line without fields is
  passed over; each other line is zipped with the field names (a later duplicate name
  wins), and the names a short line leaves over are set to \<^verbatim>\<open>None\<close>. The surplus of a
  long line goes under the key \<^verbatim>\<open>None\<close>, which the script never reads.
\<close>

definition dict_row :: "string list \<Rightarrow> string list \<Rightarrow> row" where
  "dict_row fieldnames line =
     fold (\<lambda>(k, v) d. d(k \<mapsto> v))
       (zip fieldnames (map Str line) @ map (\<lambda>k. (k, PyNone)) (drop (length line) fieldnames))
       Map.empty"

definition dict_reader :: "string list list \<Rightarrow> row list" where
  "dict_reader lines =
     (case lines of
        [] \<Rightarrow> []
      | fieldnames # rest \<Rightarrow> map (dict_row fieldnames) (filter (\<lambda>l. l \<noteq> []) rest))"

definition getitem :: "row \<Rightarrow> string \<Rightarrow> exn + cell" where
  "getitem r k = (case r k of None \<Rightarrow> Inl KeyError | Some c \<Rightarrow> Inr c)"

text \<open>\<^verbatim>\<open>int(v)\<close> for a row value: \<^verbatim>\<open>int(None)\<close> raises TypeError.\<close>

definition py_int :: "env \<Rightarrow> cell \<Rightarrow> exn + int" where
  "py_int e c =
     (case c of
        PyNone \<Rightarrow> Inl TypeError
      | Str s \<Rightarrow> (case int_of_str e s of None \<Rightarrow> Inl ValueError | Some n \<Rightarrow> Inr n))"

definition int_field :: "env \<Rightarrow> row \<Rightarrow> string \<Rightarrow> exn + int" where
  "int_field e r k = (case getitem r k of Inl ex \<Rightarrow> Inl ex | Inr c \<Rightarrow> py_int e c)"

text \<open>The body of the inner \<^verbatim>\<open>try\<close>: the frame number and the point of one row.\<close>

definition row_point :: "env \<Rightarrow> row \<Rightarrow> exn + (int \<times> point)" where
  "row_point e r =
     (case int_field e r ''Frame'' of
        Inl ex \<Rightarrow> Inl ex
      | Inr fr \<Rightarrow>
          (case int_field e r ''X'' of
             Inl ex \<Rightarrow> Inl ex
           | Inr xv \<Rightarrow>
               (case int_field e r ''Y'' of
                  Inl ex \<Rightarrow> Inl ex
                | Inr yv \<Rightarrow>
                    (let obj_name = (case r ''Object Name'' of None \<Rightarrow> Str ''Unknown'' | Some c \<Rightarrow> c)
                     in Inr (fr, \<lparr>p_name = obj_name, p_x = xv, p_y = yv\<rparr>)))))"

text \<open>\<^verbatim>\<open>points_map[frame].append(p)\<close> on a \<^verbatim>\<open>defaultdict(list)\<close>, and \<^verbatim>\<open>points_map.get(k, [])\<close>.\<close>

definition pm_get :: "points_map \<Rightarrow> int \<Rightarrow> point list" where
  "pm_get pm k = (case pm k of None \<Rightarrow> [] | Some ps \<Rightarrow> ps)"

definition pm_append :: "points_map \<Rightarrow> int \<Rightarrow> point \<Rightarrow> points_map" where
  "pm_append pm k p = pm(k \<mapsto> pm_get pm k @ [p])"

text \<open>
  The loop over the rows. ValueError and KeyError are caught inside the loop
  (\<^verbatim>\<open>continue\<close>); any other exception leaves the loop for the outer handler, which
  prints it, and the function returns what it had loaded.
\<close>

fun load_rows :: "env \<Rightarrow> points_map \<Rightarrow> row list \<Rightarrow> points_map" where
  "load_rows e pm [] = pm"
| "load_rows e pm (r # rs) =
     (case row_point e r of
        Inr (fr, p) \<Rightarrow> load_rows e (pm_append pm fr p) rs
      | Inl ex \<Rightarrow> if ex = ValueError \<or> ex = KeyError then load_rows e pm rs else pm)"

definition load_csv_data :: "env \<Rightarrow> points_map" where
  "load_csv_data e =
     (case csv_at_path e of
        NotFound \<Rightarrow> Map.empty
      | OpenFails \<Rightarrow> Map.empty
      | Readable lines \<Rightarrow> load_rows e Map.empty (dict_reader lines))"

subsection \<open>\<^verbatim>\<open>get_next_video_index\<close>\<close>

text \<open>
  The regular expression \<^verbatim>\<open>{re.escape(prefix)}_(\d+)_clean\.mp4\<close> tried at the start of
  \<open>s\<close>: the prefix and an underscore, a run of digits, then \<^verbatim>\<open>_clean.mp4\<close>. The run is
  the longest one, since a shorter one is followed by a digit and not by the underscore.
  The result is group 1.
\<close>

definition match_here :: "string \<Rightarrow> string \<Rightarrow> string option" where
  "match_here prefix s =
     (if startswith (prefix @ ''_'') s then
        (let r = drop (length prefix + 1) s; ds = takeWhile is_digit r
         in if ds \<noteq> [] \<and> startswith ''_clean.mp4'' (dropWhile is_digit r) then Some ds else None)
      else None)"

text \<open>\<^verbatim>\<open>re.search\<close>: the match at the leftmost position that has one.\<close>

fun re_search :: "string \<Rightarrow> string \<Rightarrow> string option" where
  "re_search prefix [] = match_here prefix []"
| "re_search prefix (c # cs) =
     (case match_here prefix (c # cs) of Some ds \<Rightarrow> Some ds | None \<Rightarrow> re_search prefix cs)"

definition existing_clean :: "string \<Rightarrow> string list \<Rightarrow> string list" where
  "existing_clean prefix listing =
     filter (\<lambda>f. startswith prefix f \<and> contains ''_clean.mp4'' f) listing"

definition clean_indices :: "string \<Rightarrow> string list \<Rightarrow> nat list" where
  "clean_indices prefix listing =
     concat (map (\<lambda>filename. case re_search prefix filename of
                                None \<Rightarrow> [] | Some ds \<Rightarrow> [digits_val ds])
                 (existing_clean prefix listing))"

definition get_next_video_index :: "string \<Rightarrow> string list \<Rightarrow> nat" where
  "get_next_video_index prefix listing = py_max_default (clean_indices prefix listing) 0 + 1"

subsection \<open>\<^verbatim>\<open>split_images_to_videos\<close>\<close>

definition is_image_name :: "string \<Rightarrow> bool" where
  "is_image_name img =
     (endswith ''.jpg'' (lower img) \<or> endswith ''.jpeg'' (lower img) \<or> endswith ''.png'' (lower img))"

text \<open>\<^verbatim>\<open>re.findall(r'\d+', s)\<close>: the maximal runs of digits, left to right.\<close>

function findall_digits :: "string \<Rightarrow> string list" where
  "findall_digits [] = []"
| "findall_digits (c # cs) =
     (if is_digit c then takeWhile is_digit (c # cs) # findall_digits (dropWhile is_digit cs)
      else findall_digits cs)"
  by pat_completeness auto
termination
  by (relation "measure length") (auto simp: length_dropWhile_le less_Suc_eq_le)

text \<open>What the three writers of one chunk have received so far.\<close>

record chunk_state =
  st_clean :: "frame list"
  st_annotated :: "frame list"
  st_csv :: "csv_row list"

definition csv_rows_at :: "nat \<Rightarrow> point list \<Rightarrow> csv_row list" where
  "csv_rows_at local_frame_index points =
     map (\<lambda>p. \<lparr>row_Frame = local_frame_index, row_Object_Name = p_name p,
               row_X = p_x p, row_Y = p_y p\<rparr>) points"

text \<open>
  The points of one image name: those of the frame number its last run of digits
  gives, none when it has no digit.
\<close>

definition image_points :: "points_map \<Rightarrow> string \<Rightarrow> point list" where
  "image_points pm img_name =
     (let nums = findall_digits img_name
      in if nums \<noteq> [] then pm_get pm (int (digits_val (last nums))) else [])"

text \<open>
  One pass of the loop over \<^verbatim>\<open>enumerate(video_images)\<close>. An image that does not decode
  is passed over (\<^verbatim>\<open>continue\<close>). Otherwise the frame goes to the clean writer, its points
  are appended to the rows and drawn on it, and it goes to the annotated writer.
\<close>

definition image_step :: "env \<Rightarrow> points_map \<Rightarrow> nat \<Rightarrow> string \<Rightarrow> chunk_state \<Rightarrow> chunk_state" where
  "image_step e pm local_frame_index img_name st =
     (if \<not> imread_ok e img_name then st
      else
        (let fr = \<lparr>src = img_name, circles = []\<rparr>;
             points = image_points pm img_name
         in \<lparr>st_clean = st_clean st @ [fr],
             st_annotated = st_annotated st @ [fr\<lparr>circles := map (\<lambda>p. (p_x p, p_y p)) points\<rparr>],
             st_csv = st_csv st @ csv_rows_at local_frame_index points\<rparr>))"

fun image_loop :: "env \<Rightarrow> points_map \<Rightarrow> nat \<Rightarrow> string list \<Rightarrow> chunk_state \<Rightarrow> chunk_state" where
  "image_loop e pm k [] st = st"
| "image_loop e pm k (img_name # rest) st = image_loop e pm (Suc k) rest (image_step e pm k img_name st)"

definition csv_header :: "string list" where
  "csv_header = [''Frame'', ''Object Name'', ''X'', ''Y'']"

text \<open>The block after the videos are released: the file is written only for rows.\<close>

definition save_chunk_csv :: "env \<Rightarrow> string \<Rightarrow> csv_row list \<Rightarrow> csv_file" where
  "save_chunk_csv e video_csv_path chunk_csv_data =
     (if chunk_csv_data \<noteq> [] then
        (if csv_writable e video_csv_path then Written csv_header chunk_csv_data else SaveError)
      else NoFile)"

text \<open>Everything one pass of the loop over the chunks produces.\<close>

record chunk_out =
  current_vid_idx :: nat
  clean_path :: string
  annotated_path :: string
  video_csv_path :: string
  video_images :: "string list"
  out_clean :: "frame list"
  out_annotated :: "frame list"
  chunk_csv_data :: "csv_row list"
  csv_saved :: csv_file

definition make_chunk ::
  "env \<Rightarrow> points_map \<Rightarrow> string list \<Rightarrow> string \<Rightarrow> int \<Rightarrow> nat \<Rightarrow> nat \<Rightarrow> chunk_out" where
  "make_chunk e pm images output_prefix frames_per_video starting_index i =
     (let start_idx = int i * frames_per_video;
          end_idx = min (start_idx + frames_per_video) (int (length images));
          imgs = py_slice images start_idx end_idx;
          idx = starting_index + i;
          csv_path = output_prefix @ ''_'' @ str_nat idx @ ''.csv'';
          st = image_loop e pm 0 imgs \<lparr>st_clean = [], st_annotated = [], st_csv = []\<rparr>
      in \<lparr>current_vid_idx = idx,
          clean_path = output_prefix @ ''_'' @ str_nat idx @ ''_clean.mp4'',
          annotated_path = output_prefix @ ''_'' @ str_nat idx @ ''_annotated.mp4'',
          video_csv_path = csv_path,
          video_images = imgs,
          out_clean = st_clean st,
          out_annotated = st_annotated st,
          chunk_csv_data = st_csv st,
          csv_saved = save_chunk_csv e csv_path (st_csv st)\<rparr>)"

text \<open>The filtered, sorted list of step 2.\<close>

definition sorted_images :: "env \<Rightarrow> string list" where
  "sorted_images e = natsorted e (filter is_image_name (input_listing e))"

text \<open>
  The whole run: \<open>Inl\<close> the exception that ends it, or \<open>Inr\<close> the chunks in the order they
  were produced.
\<close>

definition split_images_to_videos :: "env \<Rightarrow> string \<Rightarrow> int \<Rightarrow> exn + chunk_out list" where
  "split_images_to_videos e output_prefix frames_per_video =
     (let pm = load_csv_data e;
          images = sorted_images e;
          total_images = length images
      in if total_images = 0 then Inl ValueError
         else if \<not> imread_ok e (hd images) then Inl RuntimeError
         else if frames_per_video = 0 then Inl ZeroDivisionError
         else
           (let total_videos = py_ceil_div (int total_images) frames_per_video;
                starting_index = get_next_video_index output_prefix (output_listing e)
            in Inr (map (make_chunk e pm images output_prefix frames_per_video starting_index)
                        [0..<nat total_videos])))"

text \<open>
  The rows that the pass for the image at position \<open>j\<close> appends: what \<open>image_step\<close> adds
  to an empty state.
\<close>

definition rows_of_image :: "env \<Rightarrow> points_map \<Rightarrow> nat \<Rightarrow> string \<Rightarrow> csv_row list" where
  "rows_of_image e pm j img_name =
     st_csv (image_step e pm j img_name \<lparr>st_clean = [], st_annotated = [], st_csv = []\<rparr>)"

subsection \<open>Names of existing clips\<close>

text \<open>
  A file name of exactly the form \<^verbatim>\<open><prefix>_<N>_clean.mp4\<close>: the regular expression
  matches at the start of the name and nothing follows the match.
\<close>

definition matches_exactly :: "string \<Rightarrow> string \<Rightarrow> bool" where
  "matches_exactly prefix f =
     (case match_here prefix f of
        None \<Rightarrow> False
      | Some ds \<Rightarrow> f = prefix @ ''_'' @ ds @ ''_clean.mp4'')"

text \<open>
  The form occurs inside \<open>f\<close> at position \<open>k\<close> with the digits \<open>ds\<close>; \<open>ds\<close> are the digits
  of the leftmost occurrence in \<open>f\<close>; and the numbers counted for a listing: the number
  of the leftmost occurrence in every name that starts with the prefix and has one.
\<close>

definition occurs_at :: "string \<Rightarrow> string \<Rightarrow> nat \<Rightarrow> string \<Rightarrow> bool" where
  "occurs_at prefix f k ds =
     (ds \<noteq> [] \<and> list_all is_digit ds \<and>
      startswith (prefix @ ''_'' @ ds @ ''_clean.mp4'') (drop k f))"

definition first_occurrence :: "string \<Rightarrow> string \<Rightarrow> string \<Rightarrow> bool" where
  "first_occurrence prefix f ds =
     (\<exists>k. occurs_at prefix f k ds \<and> (\<forall>j<k. \<forall>ds'. \<not> occurs_at prefix f j ds'))"

definition counted :: "string \<Rightarrow> string list \<Rightarrow> nat set" where
  "counted prefix listing =
     {digits_val ds | f ds. f \<in> set listing \<and> startswith prefix f \<and> first_occurrence prefix f ds}"

subsection \<open>Positions in a chunk\<close>

text \<open>
  The images before position \<open>j\<close> of a chunk that do not decode: the passes of the loop
  that ended in \<^verbatim>\<open>continue\<close> before the pass for position \<open>j\<close>.
\<close>

definition skipped_before :: "env \<Rightarrow> string list \<Rightarrow> nat \<Rightarrow> nat" where
  "skipped_before e imgs j = length (filter (\<lambda>n. \<not> imread_ok e n) (take j imgs))"

subsection \<open>An example run\<close>

text \<open>
  A parser for the examples: plain decimal text with an optional minus sign, which
  \<^verbatim>\<open>int\<close> accepts with the same value.
\<close>

definition dec_int :: "string \<Rightarrow> int option" where
  "dec_int s =
     (case s of
        [] \<Rightarrow> None
      | c # cs \<Rightarrow>
          if c = CHR ''-'' then
            (if cs \<noteq> [] \<and> list_all is_digit cs then Some (- int (digits_val cs)) else None)
          else if list_all is_digit s then Some (int (digits_val s))
          else None)"

text \<open>
  Five images, the second of which does not decode, an annotation file with one
  malformed row, and an output directory that holds the clips 1 and 2.
\<close>

definition example_env :: env where
  "example_env =
     \<lparr>csv_at_path = Readable
        [[''Frame'', ''Object Name'', ''X'', ''Y''],
         [''1'', ''Cube'', ''10'', ''20''],
         [''3'', ''Ball'', ''5'', ''6''],
         [''x'', ''Bad'', ''1'', ''2''],
         [''3'', ''Cone'', ''7'', ''8'']],
      input_listing = [''f1.png'', ''f2.png'', ''f3.png'', ''notes.txt'', ''f4.JPG'', ''f5.png''],
      imread_ok = (\<lambda>n. n \<noteq> ''f2.png''),
      output_listing =
        [''output_1_clean.mp4'', ''output_2_clean.mp4'', ''output_2_annotated.mp4'', ''output_2.csv''],
      csv_writable = (\<lambda>p. True),
      natsorted = (\<lambda>xs. xs),
      int_of_str = dec_int\<rparr>"

definition example_rows :: "csv_row list" where
  "example_rows =
     [\<lparr>row_Frame = 0, row_Object_Name = Str ''Cube'', row_X = 10, row_Y = 20\<rparr>,
      \<lparr>row_Frame = 2, row_Object_Name = Str ''Ball'', row_X = 5, row_Y = 6\<rparr>,
      \<lparr>row_Frame = 2, row_Object_Name = Str ''Cone'', row_X = 7, row_Y = 8\<rparr>]"

definition example_chunk1 :: chunk_out where
  "example_chunk1 =
     \<lparr>current_vid_idx = 3,
      clean_path = ''output_3_clean.mp4'',
      annotated_path = ''output_3_annotated.mp4'',
      video_csv_path = ''output_3.csv'',
      video_images = [''f1.png'', ''f2.png'', ''f3.png''],
      out_clean = [\<lparr>src = ''f1.png'', circles = []\<rparr>, \<lparr>src = ''f3.png'', circles = []\<rparr>],
      out_annotated =
        [\<lparr>src = ''f1.png'', circles = [(10, 20)]\<rparr>,
         \<lparr>src = ''f3.png'', circles = [(5, 6), (7, 8)]\<rparr>],
      chunk_csv_data = example_rows,
      csv_saved = Written [''Frame'', ''Object Name'', ''X'', ''Y''] example_rows\<rparr>"

definition example_chunk2 :: chunk_out where
  "example_chunk2 =
     \<lparr>current_vid_idx = 4,
      clean_path = ''output_4_clean.mp4'',
      annotated_path = ''output_4_annotated.mp4'',
      video_csv_path = ''output_4.csv'',
      video_images = [''f4.JPG'', ''f5.png''],
      out_clean = [\<lparr>src = ''f4.JPG'', circles = []\<rparr>, \<lparr>src = ''f5.png'', circles = []\<rparr>],
      out_annotated = [\<lparr>src = ''f4.JPG'', circles = []\<rparr>, \<lparr>src = ''f5.png'', circles = []\<rparr>],
      chunk_csv_data = [],
      csv_saved = NoFile\<rparr>"

text \<open>The same run where no annotation file can be opened for writing.\<close>

definition readonly_env :: env where
  "readonly_env = example_env\<lparr>csv_writable := (\<lambda>p. False)\<rparr>"

definition readonly_chunk1 :: chunk_out where
  "readonly_chunk1 = example_chunk1\<lparr>csv_saved := SaveError\<rparr>"

text \<open>The last row collected for the first chunk.\<close>

definition example_row :: csv_row where
  "example_row = \<lparr>row_Frame = 2, row_Object_Name = Str ''Cone'', row_X = 7, row_Y = 8\<rparr>"

text \<open>
  An output directory with a clip and a file that carries the name of a clip inside
  its own name.
\<close>

definition nested_listing :: "string list" where
  "nested_listing = [''output_1_clean.mp4'', ''output_old_output_7_clean.mp4'']"

text \<open>
  The example with an annotation file whose first row is one field short, and the
  same file without that row.
\<close>

definition short_row_env :: env where
  "short_row_env = example_env\<lparr>csv_at_path := Readable
        [[''Frame'', ''Object Name'', ''X'', ''Y''],
         [''1'', ''Cube'', ''10''],
         [''3'', ''Ball'', ''5'', ''6'']]\<rparr>"

definition whole_rows_env :: env where
  "whole_rows_env = example_env\<lparr>csv_at_path := Readable
        [[''Frame'', ''Object Name'', ''X'', ''Y''],
         [''3'', ''Ball'', ''5'', ''6'']]\<rparr>"

text \<open>The state of the writers when a chunk starts.\<close>

definition empty_state :: chunk_state where
  "empty_state = \<lparr>st_clean = [], st_annotated = [], st_csv = []\<rparr>"

section \<open>Facts about the loops\<close>

lemma example_run:
  "split_images_to_videos example_env ''output'' 3 = Inr [example_chunk1, example_chunk2]"
  by code_simp

subsection \<open>The loop over the images of a chunk\<close>

lemma image_loop_clean:
  "st_clean (image_loop e pm k imgs st) =
     st_clean st @ map (\<lambda>n. \<lparr>src = n, circles = []\<rparr>) (filter (imread_ok e) imgs)"
  by (induction imgs arbitrary: k st) (simp_all add: image_step_def Let_def)

lemma image_loop_annotated:
  "st_annotated (image_loop e pm k imgs st) =
     st_annotated st @
     map (\<lambda>n. \<lparr>src = n, circles = map (\<lambda>p. (p_x p, p_y p)) (image_points pm n)\<rparr>)
       (filter (imread_ok e) imgs)"
  by (induction imgs arbitrary: k st) (simp_all add: image_step_def Let_def)

lemma rows_of_image_eq:
  "rows_of_image e pm j n = (if imread_ok e n then csv_rows_at j (image_points pm n) else [])"
  by (simp add: rows_of_image_def image_step_def Let_def)

lemma image_loop_csv:
  "st_csv (image_loop e pm k imgs st) =
     st_csv st @ concat (map (\<lambda>j. rows_of_image e pm (k + j) (imgs ! j)) [0..<length imgs])"
proof (induction imgs arbitrary: k st)
  case Nil
  show ?case by simp
next
  case (Cons a imgs)
  have shift:
    "map (\<lambda>j. rows_of_image e pm (k + j) ((a # imgs) ! j)) [0..<length (a # imgs)] =
       rows_of_image e pm k a #
       map (\<lambda>j. rows_of_image e pm (Suc k + j) (imgs ! j)) [0..<length imgs]"
    by (simp add: upt_conv_Cons map_Suc_upt [symmetric] del: upt_Suc)
  show ?case
    unfolding shift
    by (simp add: Cons.IH image_step_def rows_of_image_eq Let_def)
qed

subsection \<open>The loop over the chunks\<close>

lemma run_Inr:
  assumes "split_images_to_videos e p C = Inr outs"
  shows "sorted_images e \<noteq> [] \<and> imread_ok e (hd (sorted_images e)) \<and> C \<noteq> 0 \<and>
         outs = map (make_chunk e (load_csv_data e) (sorted_images e) p C
                       (get_next_video_index p (output_listing e)))
                    [0..<nat (py_ceil_div (int (length (sorted_images e))) C)]"
  using assms by (auto simp: split_images_to_videos_def Let_def split: if_splits)

lemma chunk_of_run:
  assumes "split_images_to_videos e p C = Inr outs" and "c \<in> set outs"
  shows "\<exists>i. c = make_chunk e (load_csv_data e) (sorted_images e) p C
                       (get_next_video_index p (output_listing e)) i
            \<and> i < nat (py_ceil_div (int (length (sorted_images e))) C)"
  using run_Inr [OF assms(1)] assms(2) by auto

lemma make_chunk_clean:
  "out_clean (make_chunk e pm images p C s i) =
     map (\<lambda>n. \<lparr>src = n, circles = []\<rparr>)
       (filter (imread_ok e) (video_images (make_chunk e pm images p C s i)))"
  by (simp add: make_chunk_def Let_def image_loop_clean)

lemma make_chunk_annotated:
  "out_annotated (make_chunk e pm images p C s i) =
     map (\<lambda>n. \<lparr>src = n, circles = map (\<lambda>p. (p_x p, p_y p)) (image_points pm n)\<rparr>)
       (filter (imread_ok e) (video_images (make_chunk e pm images p C s i)))"
  by (simp add: make_chunk_def Let_def image_loop_annotated)

lemma make_chunk_csv:
  "chunk_csv_data (make_chunk e pm images p C s i) =
     concat (map (\<lambda>j. rows_of_image e pm j (video_images (make_chunk e pm images p C s i) ! j))
                 [0..<length (video_images (make_chunk e pm images p C s i))])"
  by (simp add: make_chunk_def Let_def image_loop_csv)

lemma make_chunk_saved:
  "csv_saved (make_chunk e pm images p C s i) =
     save_chunk_csv e (video_csv_path (make_chunk e pm images p C s i))
       (chunk_csv_data (make_chunk e pm images p C s i))"
  by (simp add: make_chunk_def Let_def)

subsection \<open>Chunks of a run\<close>

lemma readonly_run:
  "split_images_to_videos readonly_env ''output'' 3 = Inr [readonly_chunk1, example_chunk2]"
  by code_simp


lemma nth_filter_pos:
  assumes "j < length xs" and "P (xs ! j)"
  shows "length (filter P (take j xs)) < length (filter P xs) \<and>
         filter P xs ! length (filter P (take j xs)) = xs ! j"
proof -
  have "xs = take j xs @ xs ! j # drop (Suc j) xs"
    using assms(1) by (simp add: id_take_nth_drop)
  then have "filter P xs = filter P (take j xs) @ xs ! j # filter P (drop (Suc j) xs)"
    using assms(2) by (metis filter.simps(2) filter_append)
  then show ?thesis
    by (simp add: nth_append)
qed

lemma kept_plus_skipped:
  "length (filter P (take j xs)) + length (filter (\<lambda>n. \<not> P n) (take j xs)) = length (take j xs)"
  by (rule sum_length_filter_compl)

lemma py_ceil_div_pos:
  assumes a: "0 < a" and c: "0 < py_ceil_div a b"
  shows "0 < b"
proof (rule ccontr)
  assume nb: "\<not> 0 < b"
  show False
  proof (cases "b = 0")
    case True
    with c show False by (simp add: py_ceil_div_def)
  next
    case False
    with nb have "b < 0" by simp
    then have "0 \<le> (- a) div b" using a by (simp add: neg_imp_zdiv_nonneg_iff)
    with c show False by (simp add: py_ceil_div_def)
  qed
qed

lemma py_slice_nat: "py_slice xs (int A) (int B) = take (B - A) (drop A xs)"
proof (cases "A \<le> length xs")
  case True
  show ?thesis
  proof (cases "B \<le> length xs")
    case True
    with \<open>A \<le> length xs\<close> show ?thesis
      by (simp add: py_slice_def Let_def min_def nat_diff_distrib')
  next
    case False
    then have "length xs - A \<le> B - A" by simp
    with False \<open>A \<le> length xs\<close> show ?thesis
      by (simp add: py_slice_def Let_def min_def nat_diff_distrib')
  qed
next
  case False
  then show ?thesis
    by (simp add: py_slice_def Let_def min_def)
qed

lemma slice_chunk:
  assumes "0 < C"
  shows "py_slice xs (int i * C) (min (int i * C + C) (int (length xs))) =
         take (nat C) (drop (i * nat C) xs)"
proof -
  have a: "int i * C = int (i * nat C)" using assms by simp
  have "int i * C + C = int (i * nat C + nat C)" using assms by simp
  then have b: "min (int i * C + C) (int (length xs)) = int (min (i * nat C + nat C) (length xs))"
    by (simp only: of_nat_min)
  have "take (min (i * nat C + nat C) (length xs) - i * nat C) (drop (i * nat C) xs) =
        take (nat C) (drop (i * nat C) xs)"
    by (cases "i * nat C + nat C \<le> length xs") (simp_all add: min_def)
  then show ?thesis
    by (subst b, subst a) (simp only: py_slice_nat)
qed

lemma video_images_make_chunk:
  "video_images (make_chunk e pm images p C s i) =
     py_slice images (int i * C) (min (int i * C + C) (int (length images)))"
  by (simp add: make_chunk_def Let_def)

lemma chunk_of_run_pos:
  assumes "split_images_to_videos e p C = Inr outs" and "c \<in> set outs"
  shows "0 < C"
proof -
  from chunk_of_run [OF assms] obtain i where
    "i < nat (py_ceil_div (int (length (sorted_images e))) C)" by blast
  then have "0 < py_ceil_div (int (length (sorted_images e))) C" by simp
  moreover have "0 < int (length (sorted_images e))"
    using run_Inr [OF assms(1)] by simp
  ultimately show ?thesis by (rule py_ceil_div_pos [rotated])
qed

lemma chunk_length_le:
  assumes "split_images_to_videos e p C = Inr outs" and "c \<in> set outs"
  shows "int (length (video_images c)) \<le> C"
proof -
  have pos: "0 < C" by (rule chunk_of_run_pos [OF assms])
  from chunk_of_run [OF assms] obtain i where
    c: "c = make_chunk e (load_csv_data e) (sorted_images e) p C
              (get_next_video_index p (output_listing e)) i"
    by blast
  show ?thesis
    unfolding c video_images_make_chunk slice_chunk [OF pos] using pos by simp
qed

lemma chunk_saved:
  assumes "split_images_to_videos e p C = Inr outs" and "c \<in> set outs"
  shows "csv_saved c = save_chunk_csv e (video_csv_path c) (chunk_csv_data c)"
proof -
  from chunk_of_run [OF assms] obtain i where
    c: "c = make_chunk e (load_csv_data e) (sorted_images e) p C
              (get_next_video_index p (output_listing e)) i"
    by blast
  show ?thesis unfolding c by (rule make_chunk_saved)
qed

lemma chunk_csv:
  assumes "split_images_to_videos e p C = Inr outs" and "c \<in> set outs"
  shows "chunk_csv_data c =
      concat (map (\<lambda>j. rows_of_image e (load_csv_data e) j (video_images c ! j))
                  [0..<length (video_images c)])"
proof -
  from chunk_of_run [OF assms] obtain i where
    c: "c = make_chunk e (load_csv_data e) (sorted_images e) p C
              (get_next_video_index p (output_listing e)) i"
    by blast
  show ?thesis unfolding c by (rule make_chunk_csv)
qed

lemma chunk_clean:
  assumes "split_images_to_videos e p C = Inr outs" and "c \<in> set outs"
  shows "out_clean c = map (\<lambda>n. \<lparr>src = n, circles = []\<rparr>) (filter (imread_ok e) (video_images c))"
proof -
  from chunk_of_run [OF assms] obtain i where
    c: "c = make_chunk e (load_csv_data e) (sorted_images e) p C
              (get_next_video_index p (output_listing e)) i"
    by blast
  show ?thesis unfolding c by (rule make_chunk_clean)
qed

lemma chunk_annotated:
  assumes "split_images_to_videos e p C = Inr outs" and "c \<in> set outs"
  shows "out_annotated c =
     map (\<lambda>n. \<lparr>src = n, circles = map (\<lambda>p. (p_x p, p_y p)) (image_points (load_csv_data e) n)\<rparr>)
       (filter (imread_ok e) (video_images c))"
proof -
  from chunk_of_run [OF assms] obtain i where
    c: "c = make_chunk e (load_csv_data e) (sorted_images e) p C
              (get_next_video_index p (output_listing e)) i"
    by blast
  show ?thesis unfolding c by (rule make_chunk_annotated)
qed

lemma row_of_image_Frame:
  "r \<in> set (rows_of_image e pm j n) \<Longrightarrow> row_Frame r = j"
  by (auto simp: rows_of_image_eq csv_rows_at_def split: if_splits)

lemma row_of_image_point:
  assumes "r \<in> set (rows_of_image e pm j n)"
  shows "imread_ok e n \<and>
         (\<exists>pt \<in> set (image_points pm n).
            row_Object_Name r = p_name pt \<and> row_X r = p_x pt \<and> row_Y r = p_y pt)"
  using assms by (auto simp: rows_of_image_eq csv_rows_at_def split: if_splits)

lemma example_mem1: "example_chunk1 \<in> set [example_chunk1, example_chunk2]"
  by simp

subsection \<open>Counting the chunks\<close>





subsection \<open>Runs of digits\<close>

lemma findall_no_digits:
  "list_all (\<lambda>c. \<not> is_digit c) ys \<Longrightarrow> findall_digits ys = []"
  by (induction ys) simp_all

lemma takeWhile_digits_then_rest:
  assumes "list_all is_digit ds" and "list_all (\<lambda>c. \<not> is_digit c) ys"
  shows "takeWhile is_digit (ds @ ys) = ds \<and> dropWhile is_digit (ds @ ys) = ys"
proof -
  have a: "\<forall>c \<in> set ds. is_digit c" using assms(1) by (simp add: list_all_iff)
  have ty: "takeWhile is_digit ys = []" and dy: "dropWhile is_digit ys = ys"
    using assms(2) by (cases ys; simp)+
  from a show ?thesis by (simp add: takeWhile_append2 dropWhile_append2 ty dy)
qed

lemma findall_single_run:
  assumes "ds \<noteq> []" and "list_all is_digit ds" and "list_all (\<lambda>c. \<not> is_digit c) ys"
  shows "findall_digits (ds @ ys) = [ds]"
proof -
  from assms(1) obtain d ds' where ds: "ds = d # ds'" by (cases ds) simp_all
  with assms(2) have d: "is_digit d" and ds': "list_all is_digit ds'" by simp_all
  from takeWhile_digits_then_rest [OF ds' assms(3)]
  have "takeWhile is_digit (ds' @ ys) = ds'" and "dropWhile is_digit (ds' @ ys) = ys"
    by simp_all
  with d show ?thesis
    by (simp add: ds findall_no_digits [OF assms(3)])
qed

lemma findall_append:
  "xs = [] \<or> \<not> is_digit (last xs) \<Longrightarrow>
   findall_digits (xs @ zs) = findall_digits xs @ findall_digits zs"
proof (induction xs rule: findall_digits.induct)
  case 1
  show ?case by simp
next
  case (2 c cs)
  show ?case
  proof (cases "is_digit c")
    case False
    from 2(3) have "cs = [] \<or> \<not> is_digit (last cs)" by (auto split: if_splits)
    with 2(2) [OF False] False show ?thesis by simp
  next
    case True
    with 2(3) have cs: "cs \<noteq> []" and last: "\<not> is_digit (last cs)"
      by (auto split: if_splits)
    then have ex: "\<exists>x \<in> set cs. \<not> is_digit x" using last_in_set by blast
    then have tw: "takeWhile is_digit (cs @ zs) = takeWhile is_digit cs"
      and dw: "dropWhile is_digit (cs @ zs) = dropWhile is_digit cs @ zs"
      by (auto simp: takeWhile_append1 dropWhile_append1)
    from ex have ne: "dropWhile is_digit cs \<noteq> []" by (simp add: dropWhile_eq_Nil_conv)
    then have "last (dropWhile is_digit cs) = last cs"
      by (metis last_appendR takeWhile_dropWhile_id)
    with last have "dropWhile is_digit cs = [] \<or> \<not> is_digit (last (dropWhile is_digit cs))"
      by simp
    from 2(1) [OF True this] True show ?thesis by (simp add: tw dw)
  qed
qed

lemma findall_last_run:
  assumes "ds \<noteq> []" and "list_all is_digit ds" and "list_all (\<lambda>c. \<not> is_digit c) ys"
    and "xs = [] \<or> \<not> is_digit (last xs)"
  shows "findall_digits (xs @ ds @ ys) = findall_digits xs @ [ds]"
  by (simp add: findall_append [OF assms(4)] findall_single_run [OF assms(1,2,3)])

subsection \<open>Text and numbers\<close>

lemma startswith_append: "startswith p (p @ s)"
  by (simp add: startswith_def)

lemma startswithD: "startswith p s \<Longrightarrow> s = p @ drop (length p) s"
  by (metis append_take_drop_id startswith_def)

lemma startswith_self: "startswith p p"
  by (simp add: startswith_def)

lemma contains_append: "contains sub (a @ sub @ b)"
proof (induction a)
  case Nil
  show ?case
  proof (cases "sub @ b")
    case Nil
    then show ?thesis by simp
  next
    case (Cons c cs)
    have "startswith sub (sub @ b)" by (rule startswith_append)
    then show ?thesis by (simp add: Cons)
  qed
next
  case (Cons x a)
  then show ?case by simp
qed

lemma is_digit_underscore: "\<not> is_digit (CHR ''_'')"
  by (simp add: is_digit_def)

lemma digits_then_underscore:
  assumes "list_all is_digit ds"
  shows "takeWhile is_digit (ds @ CHR ''_'' # t) = ds"
    and "dropWhile is_digit (ds @ CHR ''_'' # t) = CHR ''_'' # t"
proof -
  have a: "\<forall>c \<in> set ds. is_digit c" using assms by (simp add: list_all_iff)
  from a show "takeWhile is_digit (ds @ CHR ''_'' # t) = ds"
    by (simp add: takeWhile_append2 is_digit_underscore)
  from a show "dropWhile is_digit (ds @ CHR ''_'' # t) = CHR ''_'' # t"
    by (simp add: dropWhile_append2 is_digit_underscore)
qed

lemma digit_val_digit_char: "d < 10 \<Longrightarrow> digit_val (digit_char d) = d"
  by (simp add: digit_val_def digit_char_def)

lemma is_digit_digit_char: "d < 10 \<Longrightarrow> is_digit (digit_char d)"
  by (simp add: is_digit_def digit_char_def)

lemma digits_val_snoc: "digits_val (xs @ [c]) = 10 * digits_val xs + digit_val c"
  by (simp add: digits_val_def)

lemma digits_val_str_nat: "digits_val (str_nat n) = n"
proof (induction n rule: str_nat.induct)
  case (1 n)
  show ?case
  proof (cases "n < 10")
    case True
    then show ?thesis
      by (subst str_nat.simps) (simp add: digits_val_def digit_val_digit_char)
  next
    case False
    have "n mod 10 < 10" by simp
    with False 1 show ?thesis
      by (subst str_nat.simps) (simp add: digits_val_snoc digit_val_digit_char)
  qed
qed

lemma str_nat_digits: "list_all is_digit (str_nat n) \<and> str_nat n \<noteq> []"
proof (induction n rule: str_nat.induct)
  case (1 n)
  show ?case
  proof (cases "n < 10")
    case True
    then show ?thesis
      by (subst (1 2) str_nat.simps) (simp add: is_digit_digit_char)
  next
    case False
    have "n mod 10 < 10" by simp
    with False 1 show ?thesis
      by (subst (1 2) str_nat.simps) (simp add: is_digit_digit_char)
  qed
qed

lemma py_max_default_0: "py_max_default xs 0 = (if xs = [] then 0 else Max (set xs))"
proof (cases xs)
  case Nil
  then show ?thesis by (simp add: py_max_default_def)
next
  case (Cons v vs)
  have "fold max vs v = Max (set (v # vs))" by (simp only: Max.set_eq_fold)
  then show ?thesis by (simp add: py_max_default_def Cons)
qed

subsection \<open>The search for existing clips\<close>

lemma match_here_Some_iff:
  "match_here prefix s = Some ds \<longleftrightarrow>
     ds \<noteq> [] \<and> list_all is_digit ds \<and> startswith (prefix @ ''_'' @ ds @ ''_clean.mp4'') s"
proof
  assume m: "match_here prefix s = Some ds"
  define r where "r = drop (length prefix + 1) s"
  from m have sw: "startswith (prefix @ ''_'') s"
    by (simp add: match_here_def split: if_splits)
  from m sw have ds: "ds = takeWhile is_digit r" and ne: "ds \<noteq> []"
    and rest: "startswith ''_clean.mp4'' (dropWhile is_digit r)"
    by (auto simp: match_here_def Let_def r_def split: if_splits)
  from startswithD [OF sw] have s: "s = prefix @ ''_'' @ r"
    by (simp add: r_def)
  from startswithD [OF rest] obtain t where t: "dropWhile is_digit r = ''_clean.mp4'' @ t"
    by blast
  have "r = takeWhile is_digit r @ dropWhile is_digit r" by simp
  then have r: "r = ds @ ''_clean.mp4'' @ t" using ds t by simp
  have "s = (prefix @ ''_'' @ ds @ ''_clean.mp4'') @ t"
    by (subst s, subst r) simp
  then have "startswith (prefix @ ''_'' @ ds @ ''_clean.mp4'') s"
    using startswith_append [of "prefix @ ''_'' @ ds @ ''_clean.mp4''" t] by simp
  moreover have "list_all is_digit ds"
    unfolding ds list_all_iff by (auto dest: set_takeWhileD)
  ultimately show "ds \<noteq> [] \<and> list_all is_digit ds \<and>
      startswith (prefix @ ''_'' @ ds @ ''_clean.mp4'') s"
    using ne by simp
next
  assume a: "ds \<noteq> [] \<and> list_all is_digit ds \<and>
      startswith (prefix @ ''_'' @ ds @ ''_clean.mp4'') s"
  then have ne: "ds \<noteq> []" and dig: "list_all is_digit ds"
    and sw: "startswith (prefix @ ''_'' @ ds @ ''_clean.mp4'') s"
    by simp_all
  from startswithD [OF sw] obtain t where
    s: "s = prefix @ CHR ''_'' # ds @ CHR ''_'' # ''clean.mp4'' @ t"
    by auto
  have sw1: "startswith (prefix @ ''_'') s"
    using startswith_append [of "prefix @ ''_''" "ds @ CHR ''_'' # ''clean.mp4'' @ t"]
    by (simp add: s)
  have r: "drop (length prefix + 1) s = ds @ CHR ''_'' # ''clean.mp4'' @ t"
    by (simp add: s)
  have sw2: "startswith ''_clean.mp4'' (CHR ''_'' # ''clean.mp4'' @ t)"
    using startswith_append [of "''_clean.mp4''" t] by simp
  show "match_here prefix s = Some ds"
    unfolding match_here_def Let_def r
      digits_then_underscore(1) [OF dig] digits_then_underscore(2) [OF dig]
    using sw1 sw2 ne by simp
qed

lemma occurs_at_match: "occurs_at prefix f k ds \<longleftrightarrow> match_here prefix (drop k f) = Some ds"
  by (simp add: occurs_at_def match_here_Some_iff)

lemma re_search_Some_iff:
  "re_search prefix f = Some ds \<longleftrightarrow>
     (\<exists>k. match_here prefix (drop k f) = Some ds \<and>
          (\<forall>j<k. match_here prefix (drop j f) = None))"
proof (induction f)
  case Nil
  show ?case
  proof
    assume "re_search prefix [] = Some ds"
    then have "match_here prefix (drop 0 []) = Some ds \<and>
          (\<forall>j<0. match_here prefix (drop j []) = None)" by simp
    then show "\<exists>k. match_here prefix (drop k []) = Some ds \<and>
          (\<forall>j<k. match_here prefix (drop j []) = None)" by blast
  next
    assume "\<exists>k. match_here prefix (drop k []) = Some ds \<and>
          (\<forall>j<k. match_here prefix (drop j []) = None)"
    then show "re_search prefix [] = Some ds" by simp
  qed
next
  case (Cons c cs)
  show ?case
  proof (cases "match_here prefix (c # cs)")
    case (Some d)
    show ?thesis
    proof
      assume "re_search prefix (c # cs) = Some ds"
      with Some have "d = ds" by simp
      with Some have "match_here prefix (drop 0 (c # cs)) = Some ds \<and>
          (\<forall>j<0. match_here prefix (drop j (c # cs)) = None)" by simp
      then show "\<exists>k. match_here prefix (drop k (c # cs)) = Some ds \<and>
          (\<forall>j<k. match_here prefix (drop j (c # cs)) = None)" by blast
    next
      assume "\<exists>k. match_here prefix (drop k (c # cs)) = Some ds \<and>
          (\<forall>j<k. match_here prefix (drop j (c # cs)) = None)"
      then obtain k where k: "match_here prefix (drop k (c # cs)) = Some ds"
        and least: "\<forall>j<k. match_here prefix (drop j (c # cs)) = None" by blast
      have "k = 0"
      proof (rule ccontr)
        assume "k \<noteq> 0"
        then have "0 < k" by simp
        with least have "match_here prefix (drop 0 (c # cs)) = None" by blast
        with Some show False by simp
      qed
      with k Some have "d = ds" by simp
      with Some show "re_search prefix (c # cs) = Some ds" by simp
    qed
  next
    case None
    then have rs: "re_search prefix (c # cs) = re_search prefix cs" by simp
    show ?thesis
    proof
      assume "re_search prefix (c # cs) = Some ds"
      with rs Cons.IH obtain k where k: "match_here prefix (drop k cs) = Some ds"
        and least: "\<forall>j<k. match_here prefix (drop j cs) = None" by auto
      have "match_here prefix (drop (Suc k) (c # cs)) = Some ds" using k by simp
      moreover have "\<forall>j<Suc k. match_here prefix (drop j (c # cs)) = None"
      proof (intro allI impI)
        fix j assume "j < Suc k"
        then show "match_here prefix (drop j (c # cs)) = None"
          using None least by (cases j) simp_all
      qed
      ultimately show "\<exists>k. match_here prefix (drop k (c # cs)) = Some ds \<and>
          (\<forall>j<k. match_here prefix (drop j (c # cs)) = None)" by blast
    next
      assume "\<exists>k. match_here prefix (drop k (c # cs)) = Some ds \<and>
          (\<forall>j<k. match_here prefix (drop j (c # cs)) = None)"
      then obtain k where k: "match_here prefix (drop k (c # cs)) = Some ds"
        and least: "\<forall>j<k. match_here prefix (drop j (c # cs)) = None" by blast
      from k None obtain k' where k': "k = Suc k'" by (cases k) simp_all
      have "match_here prefix (drop k' cs) = Some ds" using k k' by simp
      moreover have "\<forall>j<k'. match_here prefix (drop j cs) = None"
      proof (intro allI impI)
        fix j assume "j < k'"
        then have "Suc j < k" using k' by simp
        with least have "match_here prefix (drop (Suc j) (c # cs)) = None" by blast
        then show "match_here prefix (drop j cs) = None" by simp
      qed
      ultimately have "re_search prefix cs = Some ds" using Cons.IH by blast
      with rs show "re_search prefix (c # cs) = Some ds" by simp
    qed
  qed
qed

lemma re_search_first_occurrence:
  "re_search prefix f = Some ds \<longleftrightarrow> first_occurrence prefix f ds"
  unfolding re_search_Some_iff first_occurrence_def occurs_at_match by auto

lemma re_search_None:
  "re_search prefix f = None \<Longrightarrow> match_here prefix (drop k f) = None"
proof (induction f arbitrary: k)
  case Nil
  then show ?case by simp
next
  case (Cons c cs)
  from Cons.prems have here: "match_here prefix (c # cs) = None"
    and rest: "re_search prefix cs = None"
    by (simp_all split: option.splits)
  show ?case
  proof (cases k)
    case 0
    with here show ?thesis by simp
  next
    case (Suc k')
    with Cons.IH [OF rest] show ?thesis by simp
  qed
qed

lemma re_search_head: "match_here prefix f = Some ds \<Longrightarrow> re_search prefix f = Some ds"
  by (cases f) simp_all

lemma first_occurrence_contains:
  assumes "first_occurrence prefix f ds"
  shows "contains ''_clean.mp4'' f"
proof -
  from assms obtain k where "occurs_at prefix f k ds"
    unfolding first_occurrence_def by blast
  then have "startswith (prefix @ ''_'' @ ds @ ''_clean.mp4'') (drop k f)"
    by (simp add: occurs_at_def)
  from startswithD [OF this] obtain t where
    "drop k f = (prefix @ ''_'' @ ds) @ ''_clean.mp4'' @ t" by auto
  then have "f = (take k f @ prefix @ ''_'' @ ds) @ ''_clean.mp4'' @ t"
    by (metis append_take_drop_id append.assoc)
  then show ?thesis
    using contains_append [of "''_clean.mp4''" "take k f @ prefix @ ''_'' @ ds" t] by simp
qed

lemma set_clean_indices: "set (clean_indices prefix listing) = counted prefix listing"
proof (intro set_eqI iffI)
  fix x assume "x \<in> set (clean_indices prefix listing)"
  then obtain f where fe: "f \<in> set (existing_clean prefix listing)"
    and xin: "x \<in> set (case re_search prefix f of None \<Rightarrow> [] | Some ds \<Rightarrow> [digits_val ds])"
    unfolding clean_indices_def by auto
  from xin obtain ds where rs: "re_search prefix f = Some ds" and x: "x = digits_val ds"
    by (cases "re_search prefix f") simp_all
  from fe have f: "f \<in> set listing" "startswith prefix f"
    by (simp_all add: existing_clean_def)
  from rs have "first_occurrence prefix f ds" by (simp add: re_search_first_occurrence)
  with f x show "x \<in> counted prefix listing"
    unfolding counted_def by blast
next
  fix x assume "x \<in> counted prefix listing"
  then obtain f ds where f: "f \<in> set listing" "startswith prefix f"
    and fo: "first_occurrence prefix f ds" and x: "x = digits_val ds"
    unfolding counted_def by blast
  have c: "contains ''_clean.mp4'' f" by (rule first_occurrence_contains [OF fo])
  have rs: "re_search prefix f = Some ds" using fo by (simp add: re_search_first_occurrence)
  have "f \<in> set (existing_clean prefix listing)" using f c by (simp add: existing_clean_def)
  moreover have "x \<in> set (case re_search prefix f of None \<Rightarrow> [] | Some ds \<Rightarrow> [digits_val ds])"
    using rs x by simp
  ultimately show "x \<in> set (clean_indices prefix listing)"
    unfolding clean_indices_def by (simp only: set_concat set_map) blast
qed

lemma matches_exactly_iff:
  "matches_exactly prefix f \<longleftrightarrow>
     (\<exists>ds. ds \<noteq> [] \<and> list_all is_digit ds \<and> f = prefix @ ''_'' @ ds @ ''_clean.mp4'')"
proof
  assume "matches_exactly prefix f"
  then obtain ds where m: "match_here prefix f = Some ds"
    and f: "f = prefix @ ''_'' @ ds @ ''_clean.mp4''"
    by (auto simp: matches_exactly_def split: option.splits)
  from m have "ds \<noteq> [] \<and> list_all is_digit ds" by (simp add: match_here_Some_iff)
  with f show "\<exists>ds. ds \<noteq> [] \<and> list_all is_digit ds \<and> f = prefix @ ''_'' @ ds @ ''_clean.mp4''"
    by blast
next
  assume "\<exists>ds. ds \<noteq> [] \<and> list_all is_digit ds \<and> f = prefix @ ''_'' @ ds @ ''_clean.mp4''"
  then obtain ds where ds: "ds \<noteq> []" "list_all is_digit ds"
    and f: "f = prefix @ ''_'' @ ds @ ''_clean.mp4''" by blast
  have "match_here prefix f = Some ds"
    unfolding match_here_Some_iff using ds startswith_self [of f] by (simp add: f)
  then show "matches_exactly prefix f"
    using f by (simp add: matches_exactly_def)
qed

lemma exact_name_counted:
  assumes "ds \<noteq> []" and "list_all is_digit ds"
    and "prefix @ ''_'' @ ds @ ''_clean.mp4'' \<in> set listing"
  shows "digits_val ds \<in> set (clean_indices prefix listing)"
proof -
  define f where "f = prefix @ ''_'' @ ds @ ''_clean.mp4''"
  have "match_here prefix f = Some ds"
    unfolding match_here_Some_iff using assms(1,2) startswith_self [of f] by (simp add: f_def)
  then have "re_search prefix f = Some ds" by (rule re_search_head)
  then have fo: "first_occurrence prefix f ds" by (simp add: re_search_first_occurrence)
  have "startswith prefix f" unfolding f_def by (rule startswith_append)
  with fo assms(3) have "digits_val ds \<in> counted prefix listing"
    unfolding counted_def f_def by blast
  then show ?thesis by (simp add: set_clean_indices)
qed

lemma next_index_gt:
  assumes "x \<in> set (clean_indices prefix listing)"
  shows "x < get_next_video_index prefix listing"
proof -
  from assms have ne: "clean_indices prefix listing \<noteq> []" by auto
  have "x \<le> Max (set (clean_indices prefix listing))" using assms by simp
  then show ?thesis
    by (simp add: get_next_video_index_def py_max_default_0 ne)
qed

lemma nested_listing_next: "get_next_video_index ''output'' nested_listing = 8"
  by code_simp

lemma notes_no_match: "re_search ''output'' ''output_notes.txt'' = None"
  by code_simp

lemma chunk_paths:
  assumes "split_images_to_videos e p C = Inr outs" and "c \<in> set outs"
  shows "get_next_video_index p (output_listing e) \<le> current_vid_idx c \<and>
         clean_path c = p @ ''_'' @ str_nat (current_vid_idx c) @ ''_clean.mp4'' \<and>
         annotated_path c = p @ ''_'' @ str_nat (current_vid_idx c) @ ''_annotated.mp4'' \<and>
         video_csv_path c = p @ ''_'' @ str_nat (current_vid_idx c) @ ''.csv''"
proof -
  from chunk_of_run [OF assms] obtain i where
    c: "c = make_chunk e (load_csv_data e) (sorted_images e) p C
              (get_next_video_index p (output_listing e)) i"
    by blast
  show ?thesis unfolding c by (simp add: make_chunk_def Let_def)
qed

lemma digits_suffix_differs:
  assumes "list_all is_digit a" and "list_all is_digit b"
  shows "a @ ''_annotated.mp4'' \<noteq> b @ ''_clean.mp4''"
proof
  assume "a @ ''_annotated.mp4'' = b @ ''_clean.mp4''"
  then have "dropWhile is_digit (a @ CHR ''_'' # ''annotated.mp4'') =
             dropWhile is_digit (b @ CHR ''_'' # ''clean.mp4'')" by simp
  then show False
    unfolding digits_then_underscore(2) [OF assms(1)] digits_then_underscore(2) [OF assms(2)]
    by simp
qed

lemma csv_suffix_differs: "a @ ''.csv'' \<noteq> b @ ''_clean.mp4''"
proof
  assume "a @ ''.csv'' = b @ ''_clean.mp4''"
  then have "last (a @ ''.csv'') = last (b @ ''_clean.mp4'')" by simp
  then show False by simp
qed

subsection \<open>The loop over the annotation rows\<close>

lemma load_rows_skips:
  "row_point e r = Inl ValueError \<or> row_point e r = Inl KeyError \<Longrightarrow>
   load_rows e pm (r # rs) = load_rows e pm rs"
  by auto

lemma load_rows_loads:
  "row_point e r = Inr (fr, p) \<Longrightarrow> load_rows e pm (r # rs) = load_rows e (pm_append pm fr p) rs"
  by simp

lemma load_rows_TypeError:
  "row_point e r = Inl TypeError \<Longrightarrow> load_rows e pm (r # rs) = pm"
  by simp

lemma row_point_Unknown:
  "row_point e r = Inr (fr, p) \<Longrightarrow> r ''Object Name'' = None \<Longrightarrow> p_name p = Str ''Unknown''"
  by (auto simp: row_point_def Let_def split: sum.splits)

section \<open>The claims\<close>



text \<open>
  C2. Where the output directory holds a file \<^verbatim>\<open><prefix>_<N>_clean.mp4\<close>, every chunk of a
  run gets a sequence index greater than \<open>N\<close>, and none of its three output paths is
  that file. The path of a new clean video is no file of the output directory at all.
\<close>

theorem new_clips_never_reuse_existing:
  assumes "split_images_to_videos e output_prefix frames_per_video = Inr outs"
    and "c \<in> set outs"
    and "ds \<noteq> []" and "list_all is_digit ds"
    and "output_prefix @ ''_'' @ ds @ ''_clean.mp4'' \<in> set (output_listing e)"
  shows "digits_val ds < current_vid_idx c \<and>
         clean_path c \<noteq> output_prefix @ ''_'' @ ds @ ''_clean.mp4'' \<and>
         annotated_path c \<noteq> output_prefix @ ''_'' @ ds @ ''_clean.mp4'' \<and>
         video_csv_path c \<noteq> output_prefix @ ''_'' @ ds @ ''_clean.mp4'' \<and>
         clean_path c \<notin> set (output_listing e)"
proof -
  define idx where "idx = current_vid_idx c"
  from chunk_paths [OF assms(1,2)]
  have ge: "get_next_video_index output_prefix (output_listing e) \<le> idx"
    and cp: "clean_path c = output_prefix @ ''_'' @ str_nat idx @ ''_clean.mp4''"
    and ap: "annotated_path c = output_prefix @ ''_'' @ str_nat idx @ ''_annotated.mp4''"
    and vp: "video_csv_path c = output_prefix @ ''_'' @ str_nat idx @ ''.csv''"
    by (simp_all add: idx_def)
  have "digits_val ds < get_next_video_index output_prefix (output_listing e)"
    by (rule next_index_gt [OF exact_name_counted [OF assms(3,4,5)]])
  with ge have 1: "digits_val ds < idx" by simp
  have 2: "clean_path c \<noteq> output_prefix @ ''_'' @ ds @ ''_clean.mp4''"
  proof
    assume "clean_path c = output_prefix @ ''_'' @ ds @ ''_clean.mp4''"
    then have "str_nat idx = ds" unfolding cp by simp
    then have "digits_val ds = idx" using digits_val_str_nat [of idx] by simp
    with 1 show False by simp
  qed
  have sd: "list_all is_digit (str_nat idx)" and sn: "str_nat idx \<noteq> []"
    using str_nat_digits [of idx] by simp_all
  have 3: "annotated_path c \<noteq> output_prefix @ ''_'' @ ds @ ''_clean.mp4''"
    unfolding ap using digits_suffix_differs [OF sd assms(4)] by simp
  have 4: "video_csv_path c \<noteq> output_prefix @ ''_'' @ ds @ ''_clean.mp4''"
    unfolding vp using csv_suffix_differs [of "str_nat idx" ds] by simp
  have 5: "clean_path c \<notin> set (output_listing e)"
  proof
    assume "clean_path c \<in> set (output_listing e)"
    then have "output_prefix @ ''_'' @ str_nat idx @ ''_clean.mp4'' \<in> set (output_listing e)"
      unfolding cp .
    from next_index_gt [OF exact_name_counted [OF sn sd this]]
    have "idx < get_next_video_index output_prefix (output_listing e)"
      by (simp add: digits_val_str_nat)
    with ge show False by simp
  qed
  from 1 2 3 4 5 show ?thesis unfolding idx_def by blast
qed

theorem new_clips_never_reuse_existing_witness:
  "split_images_to_videos example_env ''output'' 3 = Inr [example_chunk1, example_chunk2] \<and>
   example_chunk1 \<in> set [example_chunk1, example_chunk2] \<and>
   ''2'' \<noteq> [] \<and> list_all is_digit ''2'' \<and>
   ''output'' @ ''_'' @ ''2'' @ ''_clean.mp4'' \<in> set (output_listing example_env) \<and>
   digits_val ''2'' < current_vid_idx example_chunk1 \<and>
   clean_path example_chunk1 \<noteq> ''output'' @ ''_'' @ ''2'' @ ''_clean.mp4'' \<and>
   clean_path example_chunk1 \<notin> set (output_listing example_env) \<and>
   digits_val ''2'' = 2 \<and> current_vid_idx example_chunk1 = 3"
proof -
  have ne: "''2'' \<noteq> []" by simp
  have dig: "list_all is_digit ''2''" by (simp add: is_digit_def)
  have ex: "''output'' @ ''_'' @ ''2'' @ ''_clean.mp4'' \<in> set (output_listing example_env)"
    by (simp add: example_env_def)
  have v: "digits_val ''2'' = 2 \<and> current_vid_idx example_chunk1 = 3"
    by (simp add: digits_val_def digit_val_def example_chunk1_def)
  from new_clips_never_reuse_existing [OF example_run example_mem1 ne dig ex]
    example_run example_mem1 ne dig ex v
  show ?thesis by blast
qed

text \<open>
  C3, as amended. \<^verbatim>\<open>get_next_video_index\<close> returns one more than the greatest number
  counted, and 1 when none is counted. Counted is, for every file name of the listing
  that starts with the prefix and contains \<^verbatim>\<open><prefix>_<N>_clean.mp4\<close> anywhere, the \<open>N\<close> of
  the leftmost place where it does. A file name that contains the form nowhere
  contributes nothing.
\<close>

theorem next_index_counts_first_occurrences:
  "get_next_video_index prefix listing =
     (if counted prefix listing = {} then 1 else Max (counted prefix listing) + 1) \<and>
   ((\<forall>k ds. \<not> occurs_at prefix f k ds) \<longrightarrow>
      get_next_video_index prefix (f # listing) = get_next_video_index prefix listing)"
proof
  have "set (clean_indices prefix listing) = {} \<longleftrightarrow> clean_indices prefix listing = []"
    by simp
  then show "get_next_video_index prefix listing =
     (if counted prefix listing = {} then 1 else Max (counted prefix listing) + 1)"
    unfolding set_clean_indices [symmetric]
    by (simp add: get_next_video_index_def py_max_default_0)
next
  show "(\<forall>k ds. \<not> occurs_at prefix f k ds) \<longrightarrow>
      get_next_video_index prefix (f # listing) = get_next_video_index prefix listing"
  proof
    assume no: "\<forall>k ds. \<not> occurs_at prefix f k ds"
    have "re_search prefix f = None"
    proof (cases "re_search prefix f")
      case None
      then show ?thesis .
    next
      case (Some ds)
      then have "first_occurrence prefix f ds" by (simp add: re_search_first_occurrence)
      with no show ?thesis unfolding first_occurrence_def by blast
    qed
    then have "clean_indices prefix (f # listing) = clean_indices prefix listing"
      by (simp add: clean_indices_def existing_clean_def)
    then show "get_next_video_index prefix (f # listing) = get_next_video_index prefix listing"
      by (simp add: get_next_video_index_def)
  qed
qed

theorem next_index_counts_first_occurrences_witness:
  "get_next_video_index ''output'' nested_listing = 8 \<and>
   counted ''output'' nested_listing \<noteq> {} \<and>
   Max (counted ''output'' nested_listing) = 7 \<and>
   get_next_video_index ''output'' (''output_notes.txt'' # nested_listing) =
     get_next_video_index ''output'' nested_listing"
proof -
  have no: "\<forall>k ds. \<not> occurs_at ''output'' ''output_notes.txt'' k ds"
    using re_search_None [OF notes_no_match] by (simp add: occurs_at_match)
  from next_index_counts_first_occurrences [of "''output''" nested_listing "''output_notes.txt''"]
  have a: "get_next_video_index ''output'' nested_listing =
     (if counted ''output'' nested_listing = {} then 1
      else Max (counted ''output'' nested_listing) + 1)"
    and b: "get_next_video_index ''output'' (''output_notes.txt'' # nested_listing) =
     get_next_video_index ''output'' nested_listing"
    using no by blast+
  from a have "counted ''output'' nested_listing \<noteq> {} \<and>
      Max (counted ''output'' nested_listing) = 7"
    unfolding nested_listing_next by (simp split: if_splits)
  with b nested_listing_next show ?thesis by simp
qed

text \<open>
  C3 as stated fails for a name that is not of the form but contains it: the only
  file of this listing does not match \<^verbatim>\<open><prefix>_<N>_clean.mp4\<close>, and the result is 8, not 1.
\<close>

theorem inner_occurrence_is_counted:
  "\<not> matches_exactly ''output'' ''output_old_output_7_clean.mp4'' \<and>
   get_next_video_index ''output'' [''output_old_output_7_clean.mp4''] = 8"
  by code_simp

text \<open>
  C4. In every chunk of a run the clean video and the annotated video receive the same
  number of frames: one for each image of the chunk that decodes, in the same order and
  from the same images. An image that fails to decode is left out of both, and the
  points found for the chunk play no part.
\<close>

theorem clean_annotated_same_frames:
  assumes "split_images_to_videos e output_prefix frames_per_video = Inr outs"
    and "c \<in> set outs"
  shows "length (out_clean c) = length (out_annotated c) \<and>
         length (out_clean c) = length (filter (imread_ok e) (video_images c)) \<and>
         map src (out_clean c) = map src (out_annotated c)"
proof -
  from chunk_of_run [OF assms] obtain i where
    c: "c = make_chunk e (load_csv_data e) (sorted_images e) output_prefix frames_per_video
              (get_next_video_index output_prefix (output_listing e)) i"
    by blast
  show ?thesis
    unfolding c make_chunk_clean make_chunk_annotated by (simp add: comp_def)
qed

theorem clean_annotated_same_frames_witness:
  "split_images_to_videos example_env ''output'' 3 = Inr [example_chunk1, example_chunk2] \<and>
   example_chunk1 \<in> set [example_chunk1, example_chunk2] \<and>
   length (out_clean example_chunk1) = length (out_annotated example_chunk1) \<and>
   length (out_clean example_chunk1) =
     length (filter (imread_ok example_env) (video_images example_chunk1)) \<and>
   map src (out_clean example_chunk1) = map src (out_annotated example_chunk1) \<and>
   length (out_clean example_chunk1) = 2 \<and> length (video_images example_chunk1) = 3"
proof -
  have mem: "example_chunk1 \<in> set [example_chunk1, example_chunk2]" by simp
  have "length (out_clean example_chunk1) = 2 \<and> length (video_images example_chunk1) = 3"
    by (simp add: example_chunk1_def)
  with clean_annotated_same_frames [OF example_run mem] example_run mem show ?thesis
    by blast
qed



text \<open>
  C6. Every row of a per-chunk annotation file that was written has a Frame value
  below the chunk size: it is the 0-based position, within the chunk's list of file
  names, of an image that decoded and whose points include the row's point.
\<close>

theorem csv_frame_is_chunk_position:
  assumes "split_images_to_videos e output_prefix frames_per_video = Inr outs"
    and "c \<in> set outs"
    and "csv_saved c = Written hdr rows"
    and "r \<in> set rows"
  shows "int (row_Frame r) < frames_per_video \<and>
         row_Frame r < length (video_images c) \<and>
         imread_ok e (video_images c ! row_Frame r) \<and>
         (\<exists>pt \<in> set (image_points (load_csv_data e) (video_images c ! row_Frame r)).
            row_Object_Name r = p_name pt \<and> row_X r = p_x pt \<and> row_Y r = p_y pt)"
proof -
  have "csv_saved c = save_chunk_csv e (video_csv_path c) (chunk_csv_data c)"
    by (rule chunk_saved [OF assms(1,2)])
  with assms(3) have rows: "rows = chunk_csv_data c"
    by (simp add: save_chunk_csv_def split: if_splits)
  from assms(4) obtain j where j: "j < length (video_images c)"
    and r: "r \<in> set (rows_of_image e (load_csv_data e) j (video_images c ! j))"
    unfolding rows chunk_csv [OF assms(1,2)] by auto
  have fr: "row_Frame r = j" by (rule row_of_image_Frame [OF r])
  have "int (length (video_images c)) \<le> frames_per_video"
    by (rule chunk_length_le [OF assms(1,2)])
  with j have lt: "int j < frames_per_video" by linarith
  from row_of_image_point [OF r] lt j show ?thesis
    unfolding fr by simp
qed

theorem csv_frame_is_chunk_position_witness:
  "split_images_to_videos example_env ''output'' 3 = Inr [example_chunk1, example_chunk2] \<and>
   example_chunk1 \<in> set [example_chunk1, example_chunk2] \<and>
   csv_saved example_chunk1 = Written csv_header example_rows \<and>
   example_row \<in> set example_rows \<and>
   int (row_Frame example_row) < 3 \<and>
   row_Frame example_row < length (video_images example_chunk1) \<and>
   imread_ok example_env (video_images example_chunk1 ! row_Frame example_row) \<and>
   row_Frame example_row = 2 \<and>
   video_images example_chunk1 ! 2 = ''f3.png''"
proof -
  have saved: "csv_saved example_chunk1 = Written csv_header example_rows"
    by (simp add: example_chunk1_def csv_header_def)
  have rmem: "example_row \<in> set example_rows"
    by (simp add: example_row_def example_rows_def)
  have more: "row_Frame example_row = 2 \<and> video_images example_chunk1 ! 2 = ''f3.png''"
    by (simp add: example_row_def example_chunk1_def)
  from csv_frame_is_chunk_position [OF example_run example_mem1 saved rmem]
    example_run example_mem1 saved rmem more
  show ?thesis by blast
qed

text \<open>
  C7, as amended. The annotation file of a chunk is written, with the header row and
  the collected rows, exactly when at least one row was collected and the file can be
  written. Without rows no file is created. With rows and a failing write the error is
  reported and there is no written file.
\<close>

theorem chunk_csv_written_iff_rows_and_writable:
  assumes "split_images_to_videos e output_prefix frames_per_video = Inr outs"
    and "c \<in> set outs"
  shows "(csv_saved c = Written csv_header (chunk_csv_data c) \<longleftrightarrow>
            chunk_csv_data c \<noteq> [] \<and> csv_writable e (video_csv_path c)) \<and>
         (csv_saved c = NoFile \<longleftrightarrow> chunk_csv_data c = []) \<and>
         (csv_saved c = SaveError \<longleftrightarrow>
            chunk_csv_data c \<noteq> [] \<and> \<not> csv_writable e (video_csv_path c)) \<and>
         (\<forall>hdr rows. csv_saved c = Written hdr rows \<longrightarrow>
            hdr = csv_header \<and> rows = chunk_csv_data c)"
  unfolding chunk_saved [OF assms] save_chunk_csv_def by simp

theorem chunk_csv_written_iff_rows_and_writable_witness:
  "split_images_to_videos example_env ''output'' 3 = Inr [example_chunk1, example_chunk2] \<and>
   example_chunk1 \<in> set [example_chunk1, example_chunk2] \<and>
   chunk_csv_data example_chunk1 \<noteq> [] \<and>
   csv_writable example_env (video_csv_path example_chunk1) \<and>
   csv_saved example_chunk1 = Written csv_header (chunk_csv_data example_chunk1)"
proof -
  have rows: "chunk_csv_data example_chunk1 \<noteq> []"
    by (simp add: example_chunk1_def example_rows_def)
  have wr: "csv_writable example_env (video_csv_path example_chunk1)"
    by (simp add: example_env_def)
  from chunk_csv_written_iff_rows_and_writable [OF example_run example_mem1] rows wr
  have "csv_saved example_chunk1 = Written csv_header (chunk_csv_data example_chunk1)"
    by blast
  with example_run example_mem1 rows wr show ?thesis by blast
qed

text \<open>
  C7 as stated fails where the file cannot be written: rows were collected for the
  first chunk of this run, and no file was written.
\<close>

theorem rows_collected_but_no_file:
  "split_images_to_videos readonly_env ''output'' 3 = Inr [readonly_chunk1, example_chunk2] \<and>
   chunk_csv_data readonly_chunk1 = example_rows \<and>
   example_rows \<noteq> [] \<and>
   csv_saved readonly_chunk1 = SaveError"
  using readonly_run by (simp add: readonly_chunk1_def example_chunk1_def example_rows_def)

text \<open>
  C8. Where a file name ends a run of digits \<open>ds\<close> with text that has no digit, and the
  text before the run is empty or ends in a character that is no digit, the points
  looked up are those of the number \<open>ds\<close> denotes: the last run of digits of the name.
  An image without any digit in its name that decodes contributes no row and no
  circle, and its frame is still written to the clean and to the annotated video.
\<close>

theorem frame_number_is_last_digit_run:
  "(ds \<noteq> [] \<and> list_all is_digit ds \<and> list_all (\<lambda>c. \<not> is_digit c) ys \<and>
      (xs = [] \<or> \<not> is_digit (last xs)) \<longrightarrow>
      image_points pm (xs @ ds @ ys) = pm_get pm (int (digits_val ds))) \<and>
   (list_all (\<lambda>c. \<not> is_digit c) img_name \<and> imread_ok e img_name \<longrightarrow>
      rows_of_image e pm k img_name = [] \<and>
      image_step e pm k img_name st =
        \<lparr>st_clean = st_clean st @ [\<lparr>src = img_name, circles = []\<rparr>],
         st_annotated = st_annotated st @ [\<lparr>src = img_name, circles = []\<rparr>],
         st_csv = st_csv st\<rparr>)"
proof (intro conjI impI)
  assume "ds \<noteq> [] \<and> list_all is_digit ds \<and> list_all (\<lambda>c. \<not> is_digit c) ys \<and>
      (xs = [] \<or> \<not> is_digit (last xs))"
  then have "findall_digits (xs @ ds @ ys) = findall_digits xs @ [ds]"
    by (simp add: findall_last_run)
  then show "image_points pm (xs @ ds @ ys) = pm_get pm (int (digits_val ds))"
    by (simp add: image_points_def Let_def)
next
  assume a: "list_all (\<lambda>c. \<not> is_digit c) img_name \<and> imread_ok e img_name"
  then have pts: "image_points pm img_name = []"
    by (simp add: image_points_def findall_no_digits)
  with a show "rows_of_image e pm k img_name = []"
    by (simp add: rows_of_image_eq csv_rows_at_def)
  from a pts show "image_step e pm k img_name st =
        \<lparr>st_clean = st_clean st @ [\<lparr>src = img_name, circles = []\<rparr>],
         st_annotated = st_annotated st @ [\<lparr>src = img_name, circles = []\<rparr>],
         st_csv = st_csv st\<rparr>"
    by (simp add: image_step_def Let_def csv_rows_at_def)
qed

theorem frame_number_is_last_digit_run_witness:
  "''0042'' \<noteq> [] \<and> list_all is_digit ''0042'' \<and> list_all (\<lambda>c. \<not> is_digit c) ''.jpg'' \<and>
   \<not> is_digit (last ''render_12_frame_'') \<and>
   image_points (load_csv_data example_env) (''render_12_frame_'' @ ''0042'' @ ''.jpg'') =
     pm_get (load_csv_data example_env) (int (digits_val ''0042'')) \<and>
   digits_val ''0042'' = 42 \<and>
   list_all (\<lambda>c. \<not> is_digit c) ''frame.png'' \<and> imread_ok example_env ''frame.png'' \<and>
   rows_of_image example_env (load_csv_data example_env) 0 ''frame.png'' = [] \<and>
   image_step example_env (load_csv_data example_env) 0 ''frame.png'' empty_state =
        \<lparr>st_clean = st_clean empty_state @ [\<lparr>src = ''frame.png'', circles = []\<rparr>],
         st_annotated = st_annotated empty_state @ [\<lparr>src = ''frame.png'', circles = []\<rparr>],
         st_csv = st_csv empty_state\<rparr>"
proof -
  have h1: "''0042'' \<noteq> [] \<and> list_all is_digit ''0042'' \<and>
      list_all (\<lambda>c. \<not> is_digit c) ''.jpg'' \<and>
      (''render_12_frame_'' = [] \<or> \<not> is_digit (last ''render_12_frame_''))"
    by (simp add: is_digit_def)
  have h2: "list_all (\<lambda>c. \<not> is_digit c) ''frame.png'' \<and> imread_ok example_env ''frame.png''"
    by (simp add: is_digit_def example_env_def)
  have v: "digits_val ''0042'' = 42"
    by (simp add: digits_val_def digit_val_def)
  have l: "\<not> is_digit (last ''render_12_frame_'')" by (simp add: is_digit_def)
  from frame_number_is_last_digit_run
    [of "''0042''" "''.jpg''" "''render_12_frame_''" "load_csv_data example_env"
        "''frame.png''" example_env 0 empty_state]
    h1 h2 v l
  show ?thesis by blast
qed

text \<open>
  C9 at a row that is one field short. \<^verbatim>\<open>csv.DictReader\<close> sets its Y to \<^verbatim>\<open>None\<close>,
  \<^verbatim>\<open>int(None)\<close> raises TypeError, which the inner handler does not catch, and the load
  ends there: the point of frame 3 in the next row, loaded when the short row is
  absent, is not loaded.
\<close>

theorem short_row_ends_the_load:
  "row_point short_row_env
     (dict_row [''Frame'', ''Object Name'', ''X'', ''Y''] [''1'', ''Cube'', ''10'']) = Inl TypeError \<and>
   load_csv_data short_row_env 3 = None \<and>
   load_csv_data whole_rows_env 3 = Some [\<lparr>p_name = Str ''Ball'', p_x = 5, p_y = 6\<rparr>]"
  by code_simp

text \<open>
  C10. For an image at position \<open>j\<close> of a chunk that decodes, with \<open>k\<close> images before it
  that did not: its frame is the one at position \<open>j - k\<close> of both videos, while every row
  it contributes carries Frame \<open>j\<close>, which is that position plus \<open>k\<close>. The rows of the
  chunk are the rows contributed position by position.
\<close>

theorem skipped_image_still_counts:
  assumes "split_images_to_videos e output_prefix frames_per_video = Inr outs"
    and "c \<in> set outs"
    and "j < length (video_images c)"
    and "imread_ok e (video_images c ! j)"
  shows "skipped_before e (video_images c) j \<le> j \<and>
         j - skipped_before e (video_images c) j < length (out_clean c) \<and>
         src (out_clean c ! (j - skipped_before e (video_images c) j)) = video_images c ! j \<and>
         src (out_annotated c ! (j - skipped_before e (video_images c) j)) = video_images c ! j \<and>
         (\<forall>r \<in> set (rows_of_image e (load_csv_data e) j (video_images c ! j)).
            row_Frame r = (j - skipped_before e (video_images c) j)
                          + skipped_before e (video_images c) j) \<and>
         chunk_csv_data c =
           concat (map (\<lambda>i. rows_of_image e (load_csv_data e) i (video_images c ! i))
                       [0..<length (video_images c)])"
proof -
  define imgs where "imgs = video_images c"
  define k where "k = skipped_before e imgs j"
  define pos where "pos = length (filter (imread_ok e) (take j imgs))"
  have "pos + k = length (take j imgs)"
    unfolding pos_def k_def skipped_before_def by (rule kept_plus_skipped)
  with assms(3) have sum: "pos + k = j" by (simp add: imgs_def)
  then have kj: "k \<le> j" and pos: "j - k = pos" by simp_all
  from nth_filter_pos [of j imgs "imread_ok e"] assms(3,4)
  have lt: "pos < length (filter (imread_ok e) imgs)"
    and at: "filter (imread_ok e) imgs ! pos = imgs ! j"
    by (simp_all add: imgs_def pos_def)
  have clean: "out_clean c = map (\<lambda>n. \<lparr>src = n, circles = []\<rparr>) (filter (imread_ok e) imgs)"
    unfolding imgs_def by (rule chunk_clean [OF assms(1,2)])
  have ann: "out_annotated c =
     map (\<lambda>n. \<lparr>src = n, circles = map (\<lambda>p. (p_x p, p_y p)) (image_points (load_csv_data e) n)\<rparr>)
       (filter (imread_ok e) imgs)"
    unfolding imgs_def by (rule chunk_annotated [OF assms(1,2)])
  have 1: "pos < length (out_clean c)" using lt by (simp add: clean)
  have 2: "src (out_clean c ! pos) = imgs ! j" using lt at by (simp add: clean)
  have 3: "src (out_annotated c ! pos) = imgs ! j" using lt at by (simp add: ann)
  have 4: "\<forall>r \<in> set (rows_of_image e (load_csv_data e) j (imgs ! j)). row_Frame r = pos + k"
    using sum row_of_image_Frame by blast
  have 5: "chunk_csv_data c =
           concat (map (\<lambda>i. rows_of_image e (load_csv_data e) i (imgs ! i)) [0..<length imgs])"
    unfolding imgs_def by (rule chunk_csv [OF assms(1,2)])
  from kj 1 2 3 4 5 show ?thesis
    unfolding pos [symmetric] k_def imgs_def by blast
qed

theorem skipped_image_still_counts_witness:
  "split_images_to_videos example_env ''output'' 3 = Inr [example_chunk1, example_chunk2] \<and>
   example_chunk1 \<in> set [example_chunk1, example_chunk2] \<and>
   2 < length (video_images example_chunk1) \<and>
   imread_ok example_env (video_images example_chunk1 ! 2) \<and>
   skipped_before example_env (video_images example_chunk1) 2 = 1 \<and>
   src (out_clean example_chunk1 ! (2 - skipped_before example_env (video_images example_chunk1) 2))
     = video_images example_chunk1 ! 2 \<and>
   example_row \<in> set (rows_of_image example_env (load_csv_data example_env) 2
                        (video_images example_chunk1 ! 2)) \<and>
   row_Frame example_row = 2"
proof -
  have len: "2 < length (video_images example_chunk1)"
    by (simp add: example_chunk1_def)
  have ok: "imread_ok example_env (video_images example_chunk1 ! 2)"
    by (simp add: example_chunk1_def example_env_def)
  have sk: "skipped_before example_env (video_images example_chunk1) 2 = 1"
    by (simp add: skipped_before_def example_chunk1_def example_env_def)
  have img: "video_images example_chunk1 ! 2 = ''f3.png''"
    by (simp add: example_chunk1_def)
  have rmem: "example_row \<in> set (rows_of_image example_env (load_csv_data example_env) 2
                        (video_images example_chunk1 ! 2))"
    unfolding img by code_simp
  have fr: "row_Frame example_row = 2" by (simp add: example_row_def)
  from skipped_image_still_counts [OF example_run example_mem1 len ok]
    example_run example_mem1 len ok sk rmem fr
  show ?thesis by blast
qed

end
